theory Spec2Isabelle
  imports Main "HOL-Library.Word" "HOL-Library.Multiset"
begin

section \<open>JavaScript values used by passwordGenerator.js\<close>

text \<open>
  A JavaScript string is a sequence of UTF-16 code units: \<open>s.length\<close> counts code units,
  \<open>s[k]\<close> reads one, and a regular expression without the \<open>u\<close> flag tests code units.
  The string literals of the source are ASCII; \<open>str\<close> turns a literal into its code units.
\<close>

type_synonym code_unit = "16 word"
type_synonym jsstring = "code_unit list"

definition str :: "string \<Rightarrow> jsstring" where
  "str s = map of_char s"

text \<open>
  \<open>s[k]\<close> on a string: \<open>undefined\<close> (here \<open>None\<close>) when \<open>k\<close> is \<open>NaN\<close> (here \<open>None\<close>),
  negative, or not below \<open>s.length\<close>; otherwise the one-unit string at position \<open>k\<close>.
\<close>

fun str_index :: "jsstring \<Rightarrow> int option \<Rightarrow> code_unit option" where
  "str_index s None = None"
| "str_index s (Some k) = (if 0 \<le> k \<and> k < int (length s) then Some (s ! nat k) else None)"

text \<open>
  \<open>a % b\<close> on integer-valued numbers: \<open>NaN\<close> when \<open>b\<close> is zero, otherwise the remainder
  of the truncating division, which carries the sign of \<open>a\<close>.
\<close>

definition js_rem :: "int \<Rightarrow> int \<Rightarrow> int option" where
  "js_rem a b = (if b = 0 then None else Some (sgn a * (\<bar>a\<bar> mod \<bar>b\<bar>)))"

section \<open>The character pools\<close>

definition CHAR_POOLS_uppercase :: jsstring where
  "CHAR_POOLS_uppercase = str ''ABCDEFGHIJKLMNOPQRSTUVWXYZ''"

definition CHAR_POOLS_lowercase :: jsstring where
  "CHAR_POOLS_lowercase = str ''abcdefghijklmnopqrstuvwxyz''"

definition CHAR_POOLS_numbers :: jsstring where
  "CHAR_POOLS_numbers = str ''0123456789''"

definition CHAR_POOLS_symbols :: jsstring where
  "CHAR_POOLS_symbols = str ''!@#$%^&*()_+-=[]{}|;:,.<>?''"

section \<open>The random engine\<close>

text \<open>
  \<open>crypto.getRandomValues\<close> is the only source of nondeterminism. The words it will
  deliver, in order, are an \<open>entropy\<close>; a call on a \<open>Uint32Array(1)\<close> takes the first word
  and leaves the rest. Every function that draws returns the entropy that is left.
\<close>

type_synonym entropy = "nat \<Rightarrow> 32 word"

definition crypto_getRandomValues :: "entropy \<Rightarrow> 32 word \<times> entropy" where
  "crypto_getRandomValues e = (e 0, \<lambda>n. e (Suc n))"

definition getSecureRandomInt :: "int \<Rightarrow> entropy \<Rightarrow> int option \<times> entropy" where
  "getSecureRandomInt mx e =
     (let (array0, e') = crypto_getRandomValues e
      in (js_rem (uint array0) mx, e'))"

section \<open>Arrays\<close>

text \<open>
  A JavaScript array of values of type \<open>'a\<close>: each element is a value or \<open>undefined\<close>
  (\<open>None\<close>). Reading \<open>a[k]\<close> gives \<open>undefined\<close> when \<open>k\<close> is \<open>NaN\<close>, negative or not
  below \<open>a.length\<close>. Writing \<open>a[k] = v\<close> with \<open>k\<close> \<open>NaN\<close> or negative sets a property
  that is no element; writing at or beyond \<open>a.length\<close> extends the array, the gap reading
  as \<open>undefined\<close>.
\<close>

type_synonym 'a array = "'a option list"

fun arr_get :: "'a array \<Rightarrow> int option \<Rightarrow> 'a option" where
  "arr_get a None = None"
| "arr_get a (Some k) = (if 0 \<le> k \<and> k < int (length a) then a ! nat k else None)"

fun arr_set :: "'a array \<Rightarrow> int option \<Rightarrow> 'a option \<Rightarrow> 'a array" where
  "arr_set a None v = a"
| "arr_set a (Some k) v =
     (if k < 0 then a
      else if k < int (length a) then a[nat k := v]
      else a @ replicate (nat k - length a) None @ [v])"

text \<open>
  \<open>a.join('')\<close> on an array of one-unit strings: an \<open>undefined\<close> element contributes
  the empty string.
\<close>

definition join :: "code_unit array \<Rightarrow> jsstring" where
  "join a = concat (map (\<lambda>x. case x of None \<Rightarrow> [] | Some c \<Rightarrow> [c]) a)"

text \<open>
  Arrays are objects: a variable holds a reference, and a write through one reference is
  seen through every other. The store is the list of the arrays allocated so far; a
  reference is a position in it.
\<close>

type_synonym ref = nat
type_synonym 'a heap = "'a array list"

section \<open>The Fisher-Yates shuffle\<close>

text \<open>
  The loop of \<open>secureShuffleArray\<close>, from index \<open>i\<close> downwards, on the array that
  \<open>shuffled\<close> refers to. The destructuring assignment reads \<open>shuffled[j]\<close> and
  \<open>shuffled[i]\<close> first and then writes \<open>shuffled[i]\<close> and \<open>shuffled[j]\<close>, in this order.
\<close>

function shuffle_loop :: "ref \<Rightarrow> int \<Rightarrow> 'a heap \<Rightarrow> entropy \<Rightarrow> 'a heap \<times> entropy" where
  "shuffle_loop shuffled i h e =
     (if i > 0 then
        (let (j, e') = getSecureRandomInt (i + 1) e;
             rhs0 = arr_get (h ! shuffled) j;
             rhs1 = arr_get (h ! shuffled) (Some i);
             h1 = h[shuffled := arr_set (h ! shuffled) (Some i) rhs0];
             h2 = h1[shuffled := arr_set (h1 ! shuffled) j rhs1]
         in shuffle_loop shuffled (i - 1) h2 e')
      else (h, e))"
  by pat_completeness auto
termination
  by (relation "measure (\<lambda>(shuffled, i, h, e). nat i)") auto

declare shuffle_loop.simps [simp del]

text \<open>
  \<open>secureShuffleArray(array)\<close>: \<open>[...array]\<close> allocates a new array with the elements of
  the argument, the loop runs on the new array, and the reference to it is returned.
\<close>

definition secureShuffleArray :: "ref \<Rightarrow> 'a heap \<Rightarrow> entropy \<Rightarrow> ref \<times> 'a heap \<times> entropy" where
  "secureShuffleArray array h e =
     (let shuffled = length h;
          h1 = h @ [h ! array];
          (h2, e') = shuffle_loop shuffled (int (length (h1 ! shuffled)) - 1) h1 e
      in (shuffled, h2, e'))"

section \<open>The password generator\<close>

text \<open>
  The argument of \<open>generatePassword\<close>: an object in which each of the five properties
  may be absent (\<open>None\<close>). \<open>empty_object\<close> is \<open>{}\<close>. A length that is present is an
  integer (of either sign) and a flag that is present is a boolean, as the callers pass
  them; other JavaScript values in these properties are outside the model.
\<close>

record options =
  length_opt :: "int option"
  uppercase_opt :: "bool option"
  lowercase_opt :: "bool option"
  numbers_opt :: "bool option"
  symbols_opt :: "bool option"

definition empty_object :: options where
  "empty_object = \<lparr>length_opt = None, uppercase_opt = None, lowercase_opt = None,
                    numbers_opt = None, symbols_opt = None\<rparr>"

text \<open>The expression \<open>chars[getSecureRandomInt(chars.length)]\<close>.\<close>

definition draw_char :: "jsstring \<Rightarrow> entropy \<Rightarrow> code_unit option \<times> entropy" where
  "draw_char chars e =
     (let (k, e') = getSecureRandomInt (int (length chars)) e in (str_index chars k, e'))"

text \<open>
  One statement \<open>if (enabled) { pool += chars; requiredChars.push(chars[...]) }\<close>, on the
  variables \<open>pool\<close> and \<open>requiredChars\<close> and the entropy.
\<close>

definition include_class ::
  "bool \<Rightarrow> jsstring \<Rightarrow> jsstring \<times> code_unit array \<times> entropy
     \<Rightarrow> jsstring \<times> code_unit array \<times> entropy" where
  "include_class enabled chars st =
     (case st of (pool, requiredChars, e) \<Rightarrow>
        if enabled then
          (let (c, e') = draw_char chars e in (pool @ chars, requiredChars @ [c], e'))
        else (pool, requiredChars, e))"

text \<open>The loop \<open>for (let i = 0; i < remainingLength; i++)\<close> that fills \<open>passwordChars\<close>.\<close>

function fill_loop ::
  "int \<Rightarrow> int \<Rightarrow> jsstring \<Rightarrow> code_unit array \<Rightarrow> entropy \<Rightarrow> code_unit array \<times> entropy" where
  "fill_loop i remainingLength pool passwordChars e =
     (if i < remainingLength then
        (let (c, e') = draw_char pool e
         in fill_loop (i + 1) remainingLength pool (passwordChars @ [c]) e')
      else (passwordChars, e))"
  by pat_completeness auto
termination
  by (relation "measure (\<lambda>(i, remainingLength, pool, passwordChars, e). nat (remainingLength - i))")
     auto

declare fill_loop.simps [simp del]

text \<open>
  \<open>generatePassword(options = {})\<close>: the argument is \<open>None\<close> when the call passes none.
  An absent property takes its default in the destructuring. The array \<open>passwordChars\<close>
  is the only array in the store that \<open>secureShuffleArray\<close> is called on.
\<close>

definition generatePassword :: "options option \<Rightarrow> entropy \<Rightarrow> jsstring \<times> entropy" where
  "generatePassword arg e0 =
     (let opts = (case arg of None \<Rightarrow> empty_object | Some ob \<Rightarrow> ob);
          length' = (case length_opt opts of None \<Rightarrow> 14 | Some v \<Rightarrow> v);
          uppercase = (case uppercase_opt opts of None \<Rightarrow> True | Some v \<Rightarrow> v);
          lowercase = (case lowercase_opt opts of None \<Rightarrow> True | Some v \<Rightarrow> v);
          numbers = (case numbers_opt opts of None \<Rightarrow> True | Some v \<Rightarrow> v);
          symbols = (case symbols_opt opts of None \<Rightarrow> True | Some v \<Rightarrow> v);
          st0 = ([], [], e0);
          st1 = include_class uppercase CHAR_POOLS_uppercase st0;
          st2 = include_class lowercase CHAR_POOLS_lowercase st1;
          st3 = include_class numbers CHAR_POOLS_numbers st2;
          (pool, requiredChars, e4) = include_class symbols CHAR_POOLS_symbols st3
      in if pool = [] then ([], e4)
         else
           (let remainingLength = max 0 (length' - int (length requiredChars));
                (passwordChars, e5) = fill_loop 0 remainingLength pool requiredChars e4;
                (shuffled, h, e6) = secureShuffleArray 0 [passwordChars] e5
            in (join (h ! shuffled), e6)))"

text \<open>
  The pools that \<open>generatePassword\<close> appends to \<open>pool\<close>, in the order of its four
  if-statements, for given values of the four flags.
\<close>

definition enabled_classes :: "bool \<Rightarrow> bool \<Rightarrow> bool \<Rightarrow> bool \<Rightarrow> jsstring list" where
  "enabled_classes uppercase lowercase numbers symbols =
     (if uppercase then [CHAR_POOLS_uppercase] else [])
     @ (if lowercase then [CHAR_POOLS_lowercase] else [])
     @ (if numbers then [CHAR_POOLS_numbers] else [])
     @ (if symbols then [CHAR_POOLS_symbols] else [])"

text \<open>A configuration object with all five properties present.\<close>

abbreviation config :: "int \<Rightarrow> bool \<Rightarrow> bool \<Rightarrow> bool \<Rightarrow> bool \<Rightarrow> options option" where
  "config n u l d s \<equiv>
     Some \<lparr>length_opt = Some n, uppercase_opt = Some u, lowercase_opt = Some l,
           numbers_opt = Some d, symbols_opt = Some s\<rparr>"

section \<open>The strength scorer\<close>

record strength =
  score :: int
  label :: jsstring
  color :: jsstring

text \<open>\<open>/[lo-hi]/\<close> on one code unit.\<close>

definition in_range :: "char \<Rightarrow> char \<Rightarrow> code_unit \<Rightarrow> bool" where
  "in_range lo hi c = (of_char lo \<le> c \<and> c \<le> of_char hi)"

text \<open>The four regular expressions of \<open>calculateStrength\<close>, as \<open>re.test(password)\<close>.\<close>

definition test_lower :: "jsstring \<Rightarrow> bool" where
  "test_lower password = list_ex (in_range CHR ''a'' CHR ''z'') password"

definition test_upper :: "jsstring \<Rightarrow> bool" where
  "test_upper password = list_ex (in_range CHR ''A'' CHR ''Z'') password"

definition test_digit :: "jsstring \<Rightarrow> bool" where
  "test_digit password = list_ex (in_range CHR ''0'' CHR ''9'') password"

definition test_other :: "jsstring \<Rightarrow> bool" where
  "test_other password =
     list_ex (\<lambda>c. \<not> (in_range CHR ''a'' CHR ''z'' c \<or> in_range CHR ''A'' CHR ''Z'' c
                      \<or> in_range CHR ''0'' CHR ''9'' c)) password"

definition calculateStrength :: "jsstring \<Rightarrow> strength" where
  "calculateStrength password =
     (if password = [] then \<lparr>score = 0, label = str ''None'', color = str ''#9ca3af''\<rparr>
      else
        let score0 = 0;
            score1 = (if int (length password) \<ge> 8 then score0 + 15 else score0);
            score2 = (if int (length password) \<ge> 12 then score1 + 15 else score1);
            score3 = (if int (length password) \<ge> 16 then score2 + 10 else score2);
            score4 = (if int (length password) \<ge> 24 then score3 + 10 else score3);
            score5 = (if test_lower password then score4 + 15 else score4);
            score6 = (if test_upper password then score5 + 15 else score5);
            score7 = (if test_digit password then score6 + 10 else score6);
            score8 = (if test_other password then score7 + 10 else score7)
        in if score8 \<ge> 75 then \<lparr>score = score8, label = str ''Strong'', color = str ''#16a34a''\<rparr>
           else if score8 \<ge> 50 then \<lparr>score = score8, label = str ''Medium'', color = str ''#ca8a04''\<rparr>
           else \<lparr>score = score8, label = str ''Weak'', color = str ''#dc2626''\<rparr>)"

section \<open>Properties of the random engine\<close>

lemma js_rem_pos:
  assumes "0 \<le> a" and "0 < b"
  shows "js_rem a b = Some (a mod b)"
proof (cases "a = 0")
  case True
  with assms show ?thesis by (simp add: js_rem_def)
next
  case False
  with assms have "sgn a = 1" by simp
  with assms show ?thesis by (simp add: js_rem_def)
qed

lemma getSecureRandomInt_pos:
  assumes "0 < mx"
  shows "getSecureRandomInt mx e = (Some (uint (e 0) mod mx), \<lambda>n. e (Suc n))"
  using assms by (simp add: getSecureRandomInt_def crypto_getRandomValues_def js_rem_pos)

text \<open>
  C8. For every positive integer \<open>max\<close> and every 32-bit word \<open>w\<close> that the random source
  delivers next, \<open>getSecureRandomInt(max)\<close> is the number \<open>w mod max\<close>, which is at least 0
  and below \<open>max\<close>.
\<close>

theorem getSecureRandomInt_range:
  assumes "0 < mx"
  shows "fst (getSecureRandomInt mx e) = Some (uint (e 0) mod mx)
         \<and> 0 \<le> uint (e 0) mod mx \<and> uint (e 0) mod mx < mx"
  using assms by (simp add: getSecureRandomInt_pos)

theorem getSecureRandomInt_range_witness:
  "(0::int) < 26
   \<and> fst (getSecureRandomInt 26 (\<lambda>n. 4294967295)) = Some 21
   \<and> (0::int) \<le> 21 \<and> (21::int) < 26"
  using getSecureRandomInt_range [of 26 "\<lambda>n. 4294967295"] by simp

section \<open>Properties of the shuffle\<close>

lemma shuffle_loop_stop: "i \<le> 0 \<Longrightarrow> shuffle_loop s i h e = (h, e)"
  by (simp add: shuffle_loop.simps)

lemma shuffle_loop_step:
  assumes "0 < i" and "i < int (length (h ! s))" and "s < length h"
  shows "shuffle_loop s i h e =
         shuffle_loop s (i - 1)
           (h[s := (h ! s)[nat i := h ! s ! nat (uint (e 0) mod (i + 1)),
                           nat (uint (e 0) mod (i + 1)) := h ! s ! nat i]])
           (\<lambda>n. e (Suc n))"
proof -
  let ?j = "uint (e 0) mod (i + 1)"
  have j0: "0 \<le> ?j" using assms(1) by (intro pos_mod_sign) linarith
  have "?j < i + 1" using assms(1) by (intro pos_mod_bound) linarith
  then have j1: "?j \<le> i" by linarith
  from j0 have nj: "\<not> ?j < 0" by linarith
  have g: "getSecureRandomInt (i + 1) e = (Some ?j, \<lambda>n. e (Suc n))"
    using assms(1) by (simp add: getSecureRandomInt_pos)
  show ?thesis
    apply (subst shuffle_loop.simps)
    using assms j1 nj by (simp add: g Let_def)
qed

lemma shuffle_loop_inv:
  assumes "s < length h" and "i < int (length (h ! s))"
  shows "length (fst (shuffle_loop s i h e)) = length h
         \<and> (\<forall>r. r \<noteq> s \<longrightarrow> fst (shuffle_loop s i h e) ! r = h ! r)
         \<and> mset (fst (shuffle_loop s i h e) ! s) = mset (h ! s)"
  using assms
proof (induction "nat i" arbitrary: i h e)
  case 0
  then have "i \<le> 0" by simp
  then show ?case by (simp add: shuffle_loop_stop)
next
  case (Suc k)
  then have pos: "0 < i" and k: "k = nat (i - 1)" by simp_all
  let ?j = "uint (e 0) mod (i + 1)"
  let ?a = "h ! s"
  let ?a2 = "?a[nat i := ?a ! nat ?j, nat ?j := ?a ! nat i]"
  let ?h2 = "h[s := ?a2]"
  have j0: "0 \<le> ?j" using pos by (intro pos_mod_sign) linarith
  have "?j < i + 1" using pos by (intro pos_mod_bound) linarith
  then have j1: "?j \<le> i" by linarith
  have step: "shuffle_loop s i h e = shuffle_loop s (i - 1) ?h2 (\<lambda>n. e (Suc n))"
    using pos Suc.prems by (rule_tac shuffle_loop_step) 
  have len2: "s < length ?h2" using Suc.prems by simp
  have a2: "?h2 ! s = ?a2" using Suc.prems by simp
  have bound2: "i - 1 < int (length (?h2 ! s))" using Suc.prems a2 by simp
  have ms: "mset ?a2 = mset ?a"
    using j0 j1 pos Suc.prems by (intro mset_swap) simp_all
  from Suc.hyps(1)[OF k len2 bound2, of "\<lambda>n. e (Suc n)"] 
  show ?case unfolding step using a2 ms by simp
qed


lemma secureShuffleArray_copy:
  assumes "array < length h"
  shows "case secureShuffleArray array h e of (shuffled, h', e') \<Rightarrow>
           shuffled < length h' \<and> shuffled \<noteq> array
           \<and> mset (h' ! shuffled) = mset (h ! array)
           \<and> h' ! array = h ! array
           \<and> take (length h) h' = h"
proof -
  define h1 where "h1 = h @ [h ! array]"
  define i where "i = int (length (h1 ! length h)) - 1"
  define h2 where "h2 = fst (shuffle_loop (length h) i h1 e)"
  have s: "length h < length h1" by (simp add: h1_def)
  have i: "i < int (length (h1 ! length h))" by (simp add: i_def)
  note inv = shuffle_loop_inv [OF s i, of e, folded h2_def]
  have len: "length h2 = Suc (length h)" using inv by (simp add: h1_def)
  have same: "h2 ! r = h ! r" if "r < length h" for r
  proof -
    from that have "r \<noteq> length h" by simp
    with inv have "h2 ! r = h1 ! r" by blast
    with that show ?thesis by (simp add: h1_def nth_append)
  qed
  have perm: "mset (h2 ! length h) = mset (h ! array)" using inv by (simp add: h1_def)
  have tk: "take (length h) h2 = h"
    by (rule nth_equalityI) (simp_all add: len same)
  have res: "secureShuffleArray array h e = (length h, h2, snd (shuffle_loop (length h) i h1 e))"
    by (simp add: secureShuffleArray_def Let_def split_beta h1_def i_def h2_def)
  show ?thesis
    unfolding res using assms len perm tk same [OF assms] by simp
qed

text \<open>
  C7. For every store, every array in it and every entropy, \<open>secureShuffleArray\<close> returns a
  reference to a new array that holds the same multiset of elements as the argument, and
  the argument, like every other array of the store, is unchanged after the call.
\<close>

theorem secureShuffleArray_permutation:
  assumes "array < length h"
  shows "case secureShuffleArray array h e of (shuffled, h', e') \<Rightarrow>
           shuffled < length h' \<and> shuffled \<noteq> array
           \<and> mset (h' ! shuffled) = mset (h ! array)
           \<and> h' ! array = h ! array
           \<and> take (length h) h' = h"
  using assms by (rule secureShuffleArray_copy)

theorem secureShuffleArray_permutation_witness:
  "(0::nat) < length [[Some (1::nat), Some 2, None, Some 4, Some 5]]
   \<and> fst (snd (secureShuffleArray 0 [[Some (1::nat), Some 2, None, Some 4, Some 5]]
                 (\<lambda>n. word_of_nat n * 2654435761 + 12345)))
       = [[Some 1, Some 2, None, Some 4, Some 5], [Some 4, Some 5, Some 2, None, Some 1]]
   \<and> (case secureShuffleArray 0 [[Some (1::nat), Some 2, None, Some 4, Some 5]]
             (\<lambda>n. word_of_nat n * 2654435761 + 12345) of
         (shuffled, h', e') \<Rightarrow>
           shuffled < length h' \<and> shuffled \<noteq> 0
           \<and> mset (h' ! shuffled) = mset [Some 1, Some 2, None, Some 4, Some 5]
           \<and> h' ! 0 = [Some 1, Some 2, None, Some 4, Some 5]
           \<and> take 1 h' = [[Some 1, Some 2, None, Some 4, Some 5]])"
proof -
  have v: "fst (snd (secureShuffleArray 0 [[Some (1::nat), Some 2, None, Some 4, Some 5]]
                 (\<lambda>n. word_of_nat n * 2654435761 + 12345)))
       = [[Some 1, Some 2, None, Some 4, Some 5], [Some 4, Some 5, Some 2, None, Some 1]]"
    by (simp add: secureShuffleArray_def shuffle_loop_step shuffle_loop_stop)
  from secureShuffleArray_permutation
          [of 0 "[[Some (1::nat), Some 2, None, Some 4, Some 5]]"
              "\<lambda>n. word_of_nat n * 2654435761 + 12345"] v
  show ?thesis by simp
qed

section \<open>Properties of the password generator\<close>

lemma pools_nonempty:
  "CHAR_POOLS_uppercase \<noteq> []" "CHAR_POOLS_lowercase \<noteq> []"
  "CHAR_POOLS_numbers \<noteq> []" "CHAR_POOLS_symbols \<noteq> []"
  by (simp_all add: CHAR_POOLS_uppercase_def CHAR_POOLS_lowercase_def CHAR_POOLS_numbers_def
        CHAR_POOLS_symbols_def str_def)

lemma draw_char_nonempty:
  assumes "chars \<noteq> []"
  shows "\<exists>c\<in>set chars. draw_char chars e = (Some c, \<lambda>n. e (Suc n))"
proof -
  let ?k = "uint (e 0) mod int (length chars)"
  from assms have pos: "0 < int (length chars)" by simp
  have k0: "0 \<le> ?k" using pos by (rule pos_mod_sign)
  have k1: "?k < int (length chars)" using pos by (rule pos_mod_bound)
  from k0 k1 have "nat ?k < length chars" by linarith
  then have "chars ! nat ?k \<in> set chars" by (rule nth_mem)
  moreover have "draw_char chars e = (Some (chars ! nat ?k), \<lambda>n. e (Suc n))"
    using k0 k1 by (simp add: draw_char_def getSecureRandomInt_pos [OF pos])
  ultimately show ?thesis by blast
qed

lemma include_class_step:
  assumes "chars \<noteq> []" and "list_all2 (\<lambda>chars c. c \<in> set chars) cls rs"
  shows "\<exists>rs' e'. list_all2 (\<lambda>chars c. c \<in> set chars) (cls @ (if b then [chars] else [])) rs'
           \<and> include_class b chars (concat cls, map Some rs, e)
               = (concat (cls @ (if b then [chars] else [])), map Some rs', e')"
proof (cases b)
  case False
  with assms(2) show ?thesis by (auto simp: include_class_def)
next
  case True
  from draw_char_nonempty [OF assms(1), of e] obtain c
    where c: "c \<in> set chars" and d: "draw_char chars e = (Some c, \<lambda>n. e (Suc n))" by blast
  from assms(2) c have "list_all2 (\<lambda>chars c. c \<in> set chars) (cls @ [chars]) (rs @ [c])"
    by (simp add: list_all2_appendI)
  moreover have "include_class b chars (concat cls, map Some rs, e)
                   = (concat (cls @ [chars]), map Some (rs @ [c]), \<lambda>n. e (Suc n))"
    using True by (simp add: include_class_def d)
  ultimately show ?thesis using True by auto
qed

lemma include_classes:
  "\<exists>rs e'. list_all2 (\<lambda>chars c. c \<in> set chars) (enabled_classes u l d s) rs
     \<and> include_class s CHAR_POOLS_symbols
         (include_class d CHAR_POOLS_numbers
           (include_class l CHAR_POOLS_lowercase
             (include_class u CHAR_POOLS_uppercase ([], [], e))))
       = (concat (enabled_classes u l d s), map Some rs, e')"
proof -
  have "list_all2 (\<lambda>chars c. c \<in> set chars) [] ([] :: code_unit list)" by simp
  from include_class_step [OF pools_nonempty(1) this, of u e] obtain rs1 e1 where
    1: "list_all2 (\<lambda>chars c. c \<in> set chars) (if u then [CHAR_POOLS_uppercase] else []) rs1"
    and s1: "include_class u CHAR_POOLS_uppercase ([], [], e)
              = (concat (if u then [CHAR_POOLS_uppercase] else []), map Some rs1, e1)"
    by auto
  from include_class_step [OF pools_nonempty(2) 1, of l e1] obtain rs2 e2 where
    2: "list_all2 (\<lambda>chars c. c \<in> set chars)
          ((if u then [CHAR_POOLS_uppercase] else []) @ (if l then [CHAR_POOLS_lowercase] else [])) rs2"
    and s2: "include_class l CHAR_POOLS_lowercase
               (concat (if u then [CHAR_POOLS_uppercase] else []), map Some rs1, e1)
              = (concat ((if u then [CHAR_POOLS_uppercase] else [])
                   @ (if l then [CHAR_POOLS_lowercase] else [])), map Some rs2, e2)"
    by blast
  from include_class_step [OF pools_nonempty(3) 2, of d e2] obtain rs3 e3 where
    3: "list_all2 (\<lambda>chars c. c \<in> set chars)
          (((if u then [CHAR_POOLS_uppercase] else []) @ (if l then [CHAR_POOLS_lowercase] else []))
            @ (if d then [CHAR_POOLS_numbers] else [])) rs3"
    and s3: "include_class d CHAR_POOLS_numbers
               (concat ((if u then [CHAR_POOLS_uppercase] else [])
                   @ (if l then [CHAR_POOLS_lowercase] else [])), map Some rs2, e2)
              = (concat (((if u then [CHAR_POOLS_uppercase] else [])
                   @ (if l then [CHAR_POOLS_lowercase] else []))
                   @ (if d then [CHAR_POOLS_numbers] else [])), map Some rs3, e3)"
    by blast
  from include_class_step [OF pools_nonempty(4) 3, of s e3] obtain rs4 e4 where
    4: "list_all2 (\<lambda>chars c. c \<in> set chars)
          ((((if u then [CHAR_POOLS_uppercase] else []) @ (if l then [CHAR_POOLS_lowercase] else []))
            @ (if d then [CHAR_POOLS_numbers] else [])) @ (if s then [CHAR_POOLS_symbols] else [])) rs4"
    and s4: "include_class s CHAR_POOLS_symbols
               (concat (((if u then [CHAR_POOLS_uppercase] else [])
                   @ (if l then [CHAR_POOLS_lowercase] else []))
                   @ (if d then [CHAR_POOLS_numbers] else [])), map Some rs3, e3)
              = (concat ((((if u then [CHAR_POOLS_uppercase] else [])
                   @ (if l then [CHAR_POOLS_lowercase] else []))
                   @ (if d then [CHAR_POOLS_numbers] else []))
                   @ (if s then [CHAR_POOLS_symbols] else [])), map Some rs4, e4)"
    by blast
  have cls: "enabled_classes u l d s =
        (((if u then [CHAR_POOLS_uppercase] else []) @ (if l then [CHAR_POOLS_lowercase] else []))
            @ (if d then [CHAR_POOLS_numbers] else [])) @ (if s then [CHAR_POOLS_symbols] else [])"
    by (simp add: enabled_classes_def)
  show ?thesis
    unfolding cls s1 s2 s3 s4 using 4 by blast
qed

lemma fill_loop_chars:
  assumes "pool \<noteq> []"
  shows "\<exists>cs e'. fill_loop i r pool pc e = (pc @ map Some cs, e')
           \<and> int (length cs) = max 0 (r - i) \<and> set cs \<subseteq> set pool"
proof (induction "nat (r - i)" arbitrary: i pc e)
  case 0
  then have "\<not> i < r" by simp
  then have "fill_loop i r pool pc e = (pc @ map Some [], e)"
    by (simp add: fill_loop.simps)
  with \<open>\<not> i < r\<close> show ?case
    by (intro exI [of _ "[]"] exI [of _ e]) simp
next
  case (Suc k)
  then have lt: "i < r" and k: "k = nat (r - (i + 1))" by simp_all
  from draw_char_nonempty [OF assms, of e] obtain c
    where c: "c \<in> set pool" and d: "draw_char pool e = (Some c, \<lambda>n. e (Suc n))" by blast
  have step: "fill_loop i r pool pc e = fill_loop (i + 1) r pool (pc @ [Some c]) (\<lambda>n. e (Suc n))"
    by (subst fill_loop.simps) (simp add: lt d)
  from Suc.hyps(1) [OF k, of "pc @ [Some c]" "\<lambda>n. e (Suc n)"] obtain cs e'
    where r: "fill_loop (i + 1) r pool (pc @ [Some c]) (\<lambda>n. e (Suc n)) = ((pc @ [Some c]) @ map Some cs, e')"
      and n: "int (length cs) = max 0 (r - (i + 1))" and sub: "set cs \<subseteq> set pool"
    by blast
  have "fill_loop i r pool pc e = (pc @ map Some (c # cs), e')"
    unfolding step r by simp
  moreover have "int (length (c # cs)) = max 0 (r - i)" using n lt by simp
  moreover have "set (c # cs) \<subseteq> set pool" using c sub by simp
  ultimately show ?case by blast
qed

lemma join_map_Some: "join (map Some xs) = xs"
  by (induction xs) (simp_all add: join_def)

lemma mset_map_Some:
  assumes "mset a = mset (map Some xs)"
  shows "mset (join a) = mset xs"
proof -
  have "set a = Some ` set xs" using mset_eq_setD [OF assms] by simp
  then have "map (Some \<circ> the) a = a" by (intro map_idI) auto
  then have a: "a = map Some (map the a)" by simp
  have "mset (join a) = mset (map the a)" by (subst a) (simp only: join_map_Some)
  also have "\<dots> = image_mset the (mset (map Some xs))" by (simp add: assms)
  also have "\<dots> = mset xs" by (simp add: multiset.map_comp comp_def)
  finally show ?thesis .
qed


lemma concat_enabled_classes_empty:
  "concat (enabled_classes u l d s) = [] \<longleftrightarrow> enabled_classes u l d s = []"
  using pools_nonempty by (simp add: enabled_classes_def)

lemma generatePassword_run:
  assumes "include_class s CHAR_POOLS_symbols
             (include_class d CHAR_POOLS_numbers
               (include_class l CHAR_POOLS_lowercase
                 (include_class u CHAR_POOLS_uppercase ([], [], e))))
           = (pool, requiredChars, e4)"
  shows "pool = [] \<Longrightarrow>
           generatePassword (config n u l d s) e = ([], e4)"
    and "pool \<noteq> [] \<Longrightarrow>
         fill_loop 0 (max 0 (n - int (length requiredChars))) pool requiredChars e4
           = (passwordChars, e5) \<Longrightarrow>
         secureShuffleArray 0 [passwordChars] e5 = (shuffled, h, e6) \<Longrightarrow>
           generatePassword (config n u l d s) e = (join (h ! shuffled), e6)"
  by (simp_all add: generatePassword_def assms)

lemma generatePassword_full:
  fixes n :: int and u l d s :: bool and e :: entropy
  defines "cls \<equiv> enabled_classes u l d s"
  defines "out \<equiv> fst (generatePassword (config n u l d s) e)"
  shows "\<exists>rs cs. list_all2 (\<lambda>chars c. c \<in> set chars) cls rs
           \<and> (if cls = [] then cs = [] else int (length cs) = max 0 (n - int (length cls)))
           \<and> set cs \<subseteq> set (concat cls)
           \<and> mset out = mset (rs @ cs)"
proof -
  from include_classes [of u l d s e] obtain rs e4 where
    rs: "list_all2 (\<lambda>chars c. c \<in> set chars) cls rs"
    and st: "include_class s CHAR_POOLS_symbols
         (include_class d CHAR_POOLS_numbers
           (include_class l CHAR_POOLS_lowercase
             (include_class u CHAR_POOLS_uppercase ([], [], e))))
       = (concat cls, map Some rs, e4)"
    unfolding cls_def by blast
  show ?thesis
  proof (cases "cls = []")
    case True
    then have "concat cls = []" by simp
    then have "out = []"
      unfolding out_def by (simp only: generatePassword_run(1) [OF st] fst_conv)
    moreover from True rs have "rs = []" by simp
    ultimately show ?thesis using True by simp
  next
    case False
    then have pool: "concat cls \<noteq> []"
      unfolding cls_def by (simp only: concat_enabled_classes_empty not_False_eq_True)
    define r where "r = max 0 (n - int (length (map Some rs)))"
    from fill_loop_chars [OF pool, of 0 r "map Some rs" e4] obtain cs e5 where
      fl: "fill_loop 0 r (concat cls) (map Some rs) e4 = (map Some rs @ map Some cs, e5)"
      and len: "int (length cs) = max 0 (r - 0)" and sub: "set cs \<subseteq> set (concat cls)"
      by blast
    define pc where "pc = map Some rs @ map Some cs"
    obtain sh h' e6 where sa: "secureShuffleArray 0 [pc] e5 = (sh, h', e6)"
      by (cases "secureShuffleArray 0 [pc] e5") 
    have "0 < length [pc]" by simp
    from secureShuffleArray_copy [OF this, of e5] have "mset (h' ! sh) = mset pc"
      by (simp add: sa)
    then have "mset (h' ! sh) = mset (map Some (rs @ cs))" by (simp add: pc_def)
    then have m: "mset (join (h' ! sh)) = mset (rs @ cs)" by (rule mset_map_Some)
    have "out = join (h' ! sh)"
      unfolding out_def
      by (simp only: generatePassword_run(2) [OF st pool fl [unfolded r_def pc_def [symmetric]] sa]
            fst_conv)
    with m have "mset out = mset (rs @ cs)" by simp
    moreover from rs have "length rs = length cls" by (simp add: list_all2_lengthD)
    then have "int (length cs) = max 0 (n - int (length cls))"
      using len by (simp add: r_def)
    ultimately show ?thesis using rs sub False by auto
  qed
qed

lemma generatePassword_defaults:
  "generatePassword None e = generatePassword (Some empty_object) e"
  "generatePassword (Some opts) e =
     generatePassword
       (Some \<lparr>length_opt = Some (case length_opt opts of None \<Rightarrow> 14 | Some v \<Rightarrow> v),
              uppercase_opt = Some (case uppercase_opt opts of None \<Rightarrow> True | Some v \<Rightarrow> v),
              lowercase_opt = Some (case lowercase_opt opts of None \<Rightarrow> True | Some v \<Rightarrow> v),
              numbers_opt = Some (case numbers_opt opts of None \<Rightarrow> True | Some v \<Rightarrow> v),
              symbols_opt = Some (case symbols_opt opts of None \<Rightarrow> True | Some v \<Rightarrow> v)\<rparr>) e"
  by (simp_all add: generatePassword_def Let_def cong del: if_weak_cong)


lemma length_enabled_classes:
  "int (length (enabled_classes u l d s)) = of_bool u + of_bool l + of_bool d + of_bool s"
  by (simp add: enabled_classes_def)

lemma enabled_classes_empty: "enabled_classes u l d s = [] \<longleftrightarrow> \<not> (u \<or> l \<or> d \<or> s)"
  by (simp add: enabled_classes_def)

lemma set_enabled_classes:
  "chars \<in> set (enabled_classes u l d s) \<longleftrightarrow>
     u \<and> chars = CHAR_POOLS_uppercase \<or> l \<and> chars = CHAR_POOLS_lowercase
     \<or> d \<and> chars = CHAR_POOLS_numbers \<or> s \<and> chars = CHAR_POOLS_symbols"
  by (auto simp: enabled_classes_def)

lemma set_concat_enabled_classes:
  "set (concat (enabled_classes u l d s)) =
     (if u then set CHAR_POOLS_uppercase else {}) \<union> (if l then set CHAR_POOLS_lowercase else {})
     \<union> (if d then set CHAR_POOLS_numbers else {}) \<union> (if s then set CHAR_POOLS_symbols else {})"
  by (auto simp: enabled_classes_def)

lemma drawn_cover:
  assumes "list_all2 (\<lambda>chars c. c \<in> set chars) cls rs" and "chars \<in> set cls"
  shows "\<exists>c\<in>set rs. c \<in> set chars"
proof -
  from assms(2) obtain i where i: "i < length cls" and c: "cls ! i = chars"
    by (auto simp: in_set_conv_nth)
  from assms(1) i have "rs ! i \<in> set (cls ! i)" by (rule list_all2_nthD)
  moreover from assms(1) i have "rs ! i \<in> set rs" by (simp add: list_all2_lengthD)
  ultimately show ?thesis using c by blast
qed

lemma drawn_within:
  assumes "list_all2 (\<lambda>chars c. c \<in> set chars) cls rs"
  shows "set rs \<subseteq> set (concat cls)"
  using assms by (induction rule: list_all2_induct) auto

lemma generatePassword_cover:
  fixes n :: int and u l d s :: bool and e :: entropy
  defines "cls \<equiv> enabled_classes u l d s"
  defines "out \<equiv> fst (generatePassword (config n u l d s) e)"
  assumes ne: "cls \<noteq> []" and le: "int (length cls) \<le> n"
  shows "int (length out) = n" and "chars \<in> set cls \<Longrightarrow> \<exists>c\<in>set out. c \<in> set chars"
    and "set out \<subseteq> set (concat cls)"
proof -
  from generatePassword_full [of u l d s n e] ne obtain rs cs where
    rs: "list_all2 (\<lambda>chars c. c \<in> set chars) cls rs"
    and len: "int (length cs) = max 0 (n - int (length cls))"
    and sub: "set cs \<subseteq> set (concat cls)"
    and m: "mset out = mset (rs @ cs)"
    unfolding cls_def out_def by auto
  from m have "length out = length (rs @ cs)" by (rule mset_eq_length)
  moreover from rs have "length rs = length cls" by (rule list_all2_lengthD [symmetric])
  ultimately show "int (length out) = n" using len le by simp
  from m have "set out = set (rs @ cs)" by (rule mset_eq_setD)
  then have so: "set out = set rs \<union> set cs" by simp
  show "\<exists>c\<in>set out. c \<in> set chars" if "chars \<in> set cls"
    using drawn_cover [OF rs that] so by blast
  show "set out \<subseteq> set (concat cls)"
    using drawn_within [OF rs] sub so by blast
qed

text \<open>
  C1. For every configuration that enables at least one class and asks for a length of at
  least the number of enabled classes, and for every entropy, the password has exactly the
  requested length, holds a character of every enabled class, and holds no character
  outside the pools of the enabled classes.
\<close>

theorem generatePassword_length_and_classes:
  fixes n :: int
  assumes "u \<or> l \<or> d \<or> s"
    and "of_bool u + of_bool l + of_bool d + of_bool s \<le> n"
  shows "int (length (fst (generatePassword (config n u l d s) e))) = n
    \<and> (u \<longrightarrow> (\<exists>c\<in>set (fst (generatePassword (config n u l d s) e)). c \<in> set CHAR_POOLS_uppercase))
    \<and> (l \<longrightarrow> (\<exists>c\<in>set (fst (generatePassword (config n u l d s) e)). c \<in> set CHAR_POOLS_lowercase))
    \<and> (d \<longrightarrow> (\<exists>c\<in>set (fst (generatePassword (config n u l d s) e)). c \<in> set CHAR_POOLS_numbers))
    \<and> (s \<longrightarrow> (\<exists>c\<in>set (fst (generatePassword (config n u l d s) e)). c \<in> set CHAR_POOLS_symbols))
    \<and> set (fst (generatePassword (config n u l d s) e))
        \<subseteq> (if u then set CHAR_POOLS_uppercase else {}) \<union> (if l then set CHAR_POOLS_lowercase else {})
          \<union> (if d then set CHAR_POOLS_numbers else {}) \<union> (if s then set CHAR_POOLS_symbols else {})"
proof -
  have ne: "enabled_classes u l d s \<noteq> []"
    using assms(1) by (simp only: enabled_classes_empty not_not)
  have le: "int (length (enabled_classes u l d s)) \<le> n"
    using assms(2) by (simp only: length_enabled_classes)
  note c = generatePassword_cover [OF ne le, where e = e]
  have "u \<longrightarrow> CHAR_POOLS_uppercase \<in> set (enabled_classes u l d s)"
    and "l \<longrightarrow> CHAR_POOLS_lowercase \<in> set (enabled_classes u l d s)"
    and "d \<longrightarrow> CHAR_POOLS_numbers \<in> set (enabled_classes u l d s)"
    and "s \<longrightarrow> CHAR_POOLS_symbols \<in> set (enabled_classes u l d s)"
    by (simp_all add: set_enabled_classes)
  with c(2) have "u \<longrightarrow> (\<exists>c\<in>set (fst (generatePassword (config n u l d s) e)). c \<in> set CHAR_POOLS_uppercase)"
    and "l \<longrightarrow> (\<exists>c\<in>set (fst (generatePassword (config n u l d s) e)). c \<in> set CHAR_POOLS_lowercase)"
    and "d \<longrightarrow> (\<exists>c\<in>set (fst (generatePassword (config n u l d s) e)). c \<in> set CHAR_POOLS_numbers)"
    and "s \<longrightarrow> (\<exists>c\<in>set (fst (generatePassword (config n u l d s) e)). c \<in> set CHAR_POOLS_symbols)"
    by blast+
  with c(1) c(3) [unfolded set_concat_enabled_classes] show ?thesis
    by (intro conjI)
qed

theorem generatePassword_length_and_classes_witness:
  "(True \<or> False \<or> True \<or> False)
   \<and> (of_bool True + of_bool False + of_bool True + of_bool False \<le> (3::int))
   \<and> fst (generatePassword (config 3 True False True False)
             (\<lambda>n. word_of_nat n * 2654435761 + 12345)) = str ''V6H''
   \<and> int (length (str ''V6H'')) = 3
   \<and> (\<exists>c\<in>set (str ''V6H''). c \<in> set CHAR_POOLS_uppercase)
   \<and> (\<exists>c\<in>set (str ''V6H''). c \<in> set CHAR_POOLS_numbers)
   \<and> set (str ''V6H'') \<subseteq> set CHAR_POOLS_uppercase \<union> set CHAR_POOLS_numbers"
proof -
  have h1: "True \<or> False \<or> True \<or> False" by simp
  have h2: "of_bool True + of_bool False + of_bool True + of_bool False \<le> (3::int)" by simp
  have v: "fst (generatePassword (config 3 True False True False)
             (\<lambda>n. word_of_nat n * 2654435761 + 12345)) = str ''V6H''"
    by code_simp
  from generatePassword_length_and_classes [OF h1 h2, of "\<lambda>n. word_of_nat n * 2654435761 + 12345"]
  show ?thesis unfolding v by simp
qed

text \<open>
  C2. For every configuration whose four flags are all false, whatever the requested length
  (present or absent), \<open>generatePassword\<close> returns the empty string; it draws nothing from
  the random source.
\<close>

theorem generatePassword_no_class:
  "generatePassword
     (Some \<lparr>length_opt = len, uppercase_opt = Some False, lowercase_opt = Some False,
            numbers_opt = Some False, symbols_opt = Some False\<rparr>) e = ([], e)"
  by (simp add: generatePassword_def include_class_def)

text \<open>
  C3. For every configuration whose requested length is below the number of enabled
  classes (zero and negative lengths too), the length of the password is the number of
  enabled classes, and the password is a rearrangement of one character drawn from each
  enabled class.
\<close>

theorem generatePassword_short_length:
  fixes n :: int
  assumes "n < of_bool u + of_bool l + of_bool d + of_bool s"
  shows "int (length (fst (generatePassword (config n u l d s) e)))
           = of_bool u + of_bool l + of_bool d + of_bool s
         \<and> (\<exists>rs. list_all2 (\<lambda>chars c. c \<in> set chars) (enabled_classes u l d s) rs
                \<and> mset (fst (generatePassword (config n u l d s) e)) = mset rs)"
proof -
  from generatePassword_full [of u l d s n e] obtain rs cs where
    rs: "list_all2 (\<lambda>chars c. c \<in> set chars) (enabled_classes u l d s) rs"
    and len: "if enabled_classes u l d s = [] then cs = []
              else int (length cs) = max 0 (n - int (length (enabled_classes u l d s)))"
    and m: "mset (fst (generatePassword (config n u l d s) e)) = mset (rs @ cs)"
    by blast
  from assms have "n < int (length (enabled_classes u l d s))"
    by (simp only: length_enabled_classes)
  with len have "cs = []" by (simp split: if_splits)
  with m have m': "mset (fst (generatePassword (config n u l d s) e)) = mset rs" by simp
  then have "length (fst (generatePassword (config n u l d s) e)) = length rs"
    by (rule mset_eq_length)
  also from rs have "\<dots> = length (enabled_classes u l d s)"
    by (rule list_all2_lengthD [symmetric])
  finally have "int (length (fst (generatePassword (config n u l d s) e)))
                  = of_bool u + of_bool l + of_bool d + of_bool s"
    by (simp only: length_enabled_classes)
  with rs m' show ?thesis by blast
qed

theorem generatePassword_short_length_witness:
  "(-3 :: int) < of_bool True + of_bool True + of_bool False + of_bool False
   \<and> fst (generatePassword (config (-3) True True False False)
             (\<lambda>n. word_of_nat n * 2654435761 + 12345)) = str ''Vy''
   \<and> int (length (str ''Vy'')) = 2
   \<and> (\<exists>rs. list_all2 (\<lambda>chars c. c \<in> set chars) (enabled_classes True True False False) rs
          \<and> mset (str ''Vy'') = mset rs)"
proof -
  have h: "(-3 :: int) < of_bool True + of_bool True + of_bool False + of_bool False" by simp
  have v: "fst (generatePassword (config (-3) True True False False)
             (\<lambda>n. word_of_nat n * 2654435761 + 12345)) = str ''Vy''"
    by code_simp
  from generatePassword_short_length [OF h, of "\<lambda>n. word_of_nat n * 2654435761 + 12345"]
  show ?thesis unfolding v by simp
qed

text \<open>
  C10. A call without argument is a call on the empty object, and an object with absent
  properties gives the same result as the object that has 14 for an absent length and true
  for an absent flag. On the empty object, for every entropy, the password has 14
  characters and holds a character of each of the four classes.
\<close>

theorem generatePassword_defaults_14:
  "generatePassword None e = generatePassword (Some empty_object) e
   \<and> generatePassword (Some opts) e =
       generatePassword
         (config (case length_opt opts of None \<Rightarrow> 14 | Some v \<Rightarrow> v)
                 (case uppercase_opt opts of None \<Rightarrow> True | Some v \<Rightarrow> v)
                 (case lowercase_opt opts of None \<Rightarrow> True | Some v \<Rightarrow> v)
                 (case numbers_opt opts of None \<Rightarrow> True | Some v \<Rightarrow> v)
                 (case symbols_opt opts of None \<Rightarrow> True | Some v \<Rightarrow> v)) e
   \<and> length (fst (generatePassword (Some empty_object) e)) = 14
   \<and> (\<exists>c\<in>set (fst (generatePassword (Some empty_object) e)). c \<in> set CHAR_POOLS_uppercase)
   \<and> (\<exists>c\<in>set (fst (generatePassword (Some empty_object) e)). c \<in> set CHAR_POOLS_lowercase)
   \<and> (\<exists>c\<in>set (fst (generatePassword (Some empty_object) e)). c \<in> set CHAR_POOLS_numbers)
   \<and> (\<exists>c\<in>set (fst (generatePassword (Some empty_object) e)). c \<in> set CHAR_POOLS_symbols)"
proof -
  have eq: "generatePassword (Some empty_object) e = generatePassword (config 14 True True True True) e"
    by (subst generatePassword_defaults(2)) (simp add: empty_object_def)
  have ne: "enabled_classes True True True True \<noteq> []"
    by (simp only: enabled_classes_empty simp_thms)
  have le: "int (length (enabled_classes True True True True)) \<le> 14"
    by (simp add: length_enabled_classes)
  note c = generatePassword_cover [OF ne le, where e = e]
  have "int (length (fst (generatePassword (Some empty_object) e))) = 14"
    unfolding eq by (rule c(1))
  then have "length (fst (generatePassword (Some empty_object) e)) = 14" by simp
  moreover have "\<exists>c\<in>set (fst (generatePassword (Some empty_object) e)). c \<in> set CHAR_POOLS_uppercase"
    unfolding eq by (rule c(2)) (simp add: set_enabled_classes)
  moreover have "\<exists>c\<in>set (fst (generatePassword (Some empty_object) e)). c \<in> set CHAR_POOLS_lowercase"
    unfolding eq by (rule c(2)) (simp add: set_enabled_classes)
  moreover have "\<exists>c\<in>set (fst (generatePassword (Some empty_object) e)). c \<in> set CHAR_POOLS_numbers"
    unfolding eq by (rule c(2)) (simp add: set_enabled_classes)
  moreover have "\<exists>c\<in>set (fst (generatePassword (Some empty_object) e)). c \<in> set CHAR_POOLS_symbols"
    unfolding eq by (rule c(2)) (simp add: set_enabled_classes)
  ultimately show ?thesis
    using generatePassword_defaults(1) [of e] generatePassword_defaults(2) [of opts e]
    by (intro conjI)
qed

section \<open>Properties of the strength scorer\<close>

lemma len16: "LENGTH(16) = 16" by simp

lemma unat_of_char: "unat (of_char ch :: code_unit) = of_char ch"
proof -
  have "(of_char ch :: code_unit) = word_of_nat (of_char ch)"
    by (simp add: of_nat_of_char)
  moreover have "(of_char ch :: nat) mod 2 ^ 16 = of_char ch"
    by (rule mod_less, rule less_trans [OF nat_of_char_less_256]) simp
  ultimately show ?thesis by (simp only: unat_of_nat len16)
qed

lemma in_range_unat:
  "in_range lo hi c \<longleftrightarrow> of_char lo \<le> unat c \<and> unat c \<le> of_char hi"
  by (simp add: in_range_def word_le_nat_alt unat_of_char)

lemma mem_str_unat: "c \<in> set (str s) \<longleftrightarrow> unat c \<in> set (map of_char s)"
proof
  assume "c \<in> set (str s)"
  then obtain ch where "ch \<in> set s" and "c = of_char ch" by (auto simp: str_def)
  then show "unat c \<in> set (map of_char s)" by (auto simp: unat_of_char)
next
  assume "unat c \<in> set (map of_char s)"
  then obtain ch where ch: "ch \<in> set s" and u: "unat c = of_char ch" by auto
  have "c = word_of_nat (unat c)" by simp
  also have "\<dots> = of_char ch" by (simp only: u of_nat_of_char)
  finally show "c \<in> set (str s)" using ch by (auto simp: str_def)
qed

lemma lower_pool: "in_range CHR ''a'' CHR ''z'' c \<longleftrightarrow> c \<in> set CHAR_POOLS_lowercase"
  unfolding in_range_unat mem_str_unat CHAR_POOLS_lowercase_def by simp arith

lemma upper_pool: "in_range CHR ''A'' CHR ''Z'' c \<longleftrightarrow> c \<in> set CHAR_POOLS_uppercase"
  unfolding in_range_unat mem_str_unat CHAR_POOLS_uppercase_def by simp arith

lemma digit_pool: "in_range CHR ''0'' CHR ''9'' c \<longleftrightarrow> c \<in> set CHAR_POOLS_numbers"
  unfolding in_range_unat mem_str_unat CHAR_POOLS_numbers_def by simp arith

lemma test_lower_iff: "test_lower p \<longleftrightarrow> (\<exists>c\<in>set p. c \<in> set CHAR_POOLS_lowercase)"
  by (simp add: test_lower_def list_ex_iff lower_pool)

lemma test_upper_iff: "test_upper p \<longleftrightarrow> (\<exists>c\<in>set p. c \<in> set CHAR_POOLS_uppercase)"
  by (simp add: test_upper_def list_ex_iff upper_pool)

lemma test_digit_iff: "test_digit p \<longleftrightarrow> (\<exists>c\<in>set p. c \<in> set CHAR_POOLS_numbers)"
  by (simp add: test_digit_def list_ex_iff digit_pool)

lemma test_other_iff:
  "test_other p \<longleftrightarrow>
     (\<exists>c\<in>set p. c \<notin> set CHAR_POOLS_lowercase \<union> set CHAR_POOLS_uppercase \<union> set CHAR_POOLS_numbers)"
  by (simp add: test_other_def list_ex_iff lower_pool upper_pool digit_pool)

lemma score_sum:
  assumes "password \<noteq> []"
  shows "score (calculateStrength password) =
           (if 8 \<le> length password then 15 else 0)
         + (if 12 \<le> length password then 15 else 0)
         + (if 16 \<le> length password then 10 else 0)
         + (if 24 \<le> length password then 10 else 0)
         + (if test_lower password then 15 else 0)
         + (if test_upper password then 15 else 0)
         + (if test_digit password then 10 else 0)
         + (if test_other password then 10 else 0)"
  using assms by (simp add: calculateStrength_def Let_def)

lemma label_by_score:
  assumes "password \<noteq> []"
  shows "(label (calculateStrength password), color (calculateStrength password)) =
           (if 75 \<le> score (calculateStrength password) then (str ''Strong'', str ''#16a34a'')
            else if 50 \<le> score (calculateStrength password) then (str ''Medium'', str ''#ca8a04'')
            else (str ''Weak'', str ''#dc2626''))"
  using assms by (simp add: calculateStrength_def Let_def)

text \<open>
  C5. \<open>calculateStrength\<close> of the empty string is exactly score 0, label "None" and the
  gray colour \<open>#9ca3af\<close>; no bucket contributes.
\<close>

theorem calculateStrength_empty:
  "calculateStrength (str '''') = \<lparr>score = 0, label = str ''None'', color = str ''#9ca3af''\<rparr>"
  by (simp add: calculateStrength_def str_def)

text \<open>
  C4. For every non-empty password the score is the sum of the eight buckets of the table,
  each evaluated on its own: 15, 15, 10 and 10 for a length of at least 8, 12, 16 and 24;
  15 for a lowercase letter, 15 for an uppercase letter, 10 for a digit and 10 for a
  character that is no letter and no digit. \<open>Aa1!Aa1!Aa1!\<close> scores 80 and is "Strong",
  \<open>abcdefghijklmnop\<close> scores 55 and is "Medium".
\<close>

theorem calculateStrength_buckets:
  assumes "password \<noteq> []"
  shows "score (calculateStrength password) =
             (if 8 \<le> length password then 15 else 0)
           + (if 12 \<le> length password then 15 else 0)
           + (if 16 \<le> length password then 10 else 0)
           + (if 24 \<le> length password then 10 else 0)
           + (if \<exists>c\<in>set password. c \<in> set CHAR_POOLS_lowercase then 15 else 0)
           + (if \<exists>c\<in>set password. c \<in> set CHAR_POOLS_uppercase then 15 else 0)
           + (if \<exists>c\<in>set password. c \<in> set CHAR_POOLS_numbers then 10 else 0)
           + (if \<exists>c\<in>set password. c \<notin> set CHAR_POOLS_lowercase \<union> set CHAR_POOLS_uppercase
                                        \<union> set CHAR_POOLS_numbers then 10 else 0)
         \<and> score (calculateStrength (str ''Aa1!Aa1!Aa1!'')) = 80
         \<and> label (calculateStrength (str ''Aa1!Aa1!Aa1!'')) = str ''Strong''
         \<and> score (calculateStrength (str ''abcdefghijklmnop'')) = 55
         \<and> label (calculateStrength (str ''abcdefghijklmnop'')) = str ''Medium''"
proof -
  have "calculateStrength (str ''Aa1!Aa1!Aa1!'')
          = \<lparr>score = 80, label = str ''Strong'', color = str ''#16a34a''\<rparr>"
    by (simp add: calculateStrength_def str_def test_lower_def test_upper_def test_digit_def
          test_other_def in_range_def)
  moreover have "calculateStrength (str ''abcdefghijklmnop'')
          = \<lparr>score = 55, label = str ''Medium'', color = str ''#ca8a04''\<rparr>"
    by (simp add: calculateStrength_def str_def test_lower_def test_upper_def test_digit_def
          test_other_def in_range_def)
  ultimately show ?thesis
    by (simp only: score_sum [OF assms] test_lower_iff test_upper_iff test_digit_iff
          test_other_iff strength.simps simp_thms)
qed

theorem calculateStrength_buckets_witness:
  "str ''aaaaaaaa'' \<noteq> []
   \<and> score (calculateStrength (str ''aaaaaaaa'')) = 30
   \<and> score (calculateStrength (str ''Aa1!Aa1!Aa1!'')) = 80
   \<and> label (calculateStrength (str ''Aa1!Aa1!Aa1!'')) = str ''Strong''
   \<and> score (calculateStrength (str ''abcdefghijklmnop'')) = 55
   \<and> label (calculateStrength (str ''abcdefghijklmnop'')) = str ''Medium''"
proof -
  have ne: "str ''aaaaaaaa'' \<noteq> []" by (simp add: str_def)
  have "score (calculateStrength (str ''aaaaaaaa'')) = 30"
    unfolding calculateStrength_buckets [OF ne, THEN conjunct1]
    by (simp add: str_def CHAR_POOLS_lowercase_def CHAR_POOLS_uppercase_def
          CHAR_POOLS_numbers_def)
  with ne calculateStrength_buckets [OF ne, THEN conjunct2] show ?thesis by simp
qed

text \<open>
  C6, as the code has it. For every non-empty password: a score of at least 75 gives
  "Strong" and green \<open>#16a34a\<close>; a score of at least 50 and below 75 gives "Medium" and amber
  \<open>#ca8a04\<close>; a score below 50 gives "Weak" and red \<open>#dc2626\<close>.
\<close>

theorem calculateStrength_label:
  assumes "password \<noteq> []"
  shows "(75 \<le> score (calculateStrength password) \<longrightarrow>
            label (calculateStrength password) = str ''Strong''
            \<and> color (calculateStrength password) = str ''#16a34a'')
       \<and> (50 \<le> score (calculateStrength password) \<and> score (calculateStrength password) < 75 \<longrightarrow>
            label (calculateStrength password) = str ''Medium''
            \<and> color (calculateStrength password) = str ''#ca8a04'')
       \<and> (score (calculateStrength password) < 50 \<longrightarrow>
            label (calculateStrength password) = str ''Weak''
            \<and> color (calculateStrength password) = str ''#dc2626'')"
  using label_by_score [OF assms] by (auto split: if_splits)

theorem calculateStrength_label_witness:
  "str ''aaaaaaaa'' \<noteq> []
   \<and> score (calculateStrength (str ''aaaaaaaa'')) < 50
   \<and> label (calculateStrength (str ''aaaaaaaa'')) = str ''Weak''
   \<and> color (calculateStrength (str ''aaaaaaaa'')) = str ''#dc2626''
   \<and> str ''abcdefghijklmnop'' \<noteq> []
   \<and> 50 \<le> score (calculateStrength (str ''abcdefghijklmnop''))
   \<and> score (calculateStrength (str ''abcdefghijklmnop'')) < 75
   \<and> label (calculateStrength (str ''abcdefghijklmnop'')) = str ''Medium''
   \<and> color (calculateStrength (str ''abcdefghijklmnop'')) = str ''#ca8a04''
   \<and> str ''Aa1!Aa1!Aa1!'' \<noteq> []
   \<and> 75 \<le> score (calculateStrength (str ''Aa1!Aa1!Aa1!''))
   \<and> label (calculateStrength (str ''Aa1!Aa1!Aa1!'')) = str ''Strong''
   \<and> color (calculateStrength (str ''Aa1!Aa1!Aa1!'')) = str ''#16a34a''"
proof -
  have ne1: "str ''aaaaaaaa'' \<noteq> []" and ne2: "str ''abcdefghijklmnop'' \<noteq> []"
    and ne3: "str ''Aa1!Aa1!Aa1!'' \<noteq> []"
    by (simp_all add: str_def)
  have s1: "score (calculateStrength (str ''aaaaaaaa'')) = 30"
    by (simp add: calculateStrength_def str_def test_lower_def test_upper_def test_digit_def
          test_other_def in_range_def)
  have s2: "score (calculateStrength (str ''abcdefghijklmnop'')) = 55"
    by (simp add: calculateStrength_def str_def test_lower_def test_upper_def test_digit_def
          test_other_def in_range_def)
  have s3: "score (calculateStrength (str ''Aa1!Aa1!Aa1!'')) = 80"
    by (simp add: calculateStrength_def str_def test_lower_def test_upper_def test_digit_def
          test_other_def in_range_def)
  from calculateStrength_label [OF ne1] calculateStrength_label [OF ne2]
    calculateStrength_label [OF ne3] ne1 ne2 ne3
  show ?thesis unfolding s1 s2 s3 by simp
qed

text \<open>
  The claim C6 as the specification words it gives "Weak" and red to every non-empty
  password that scores below 75. \<open>abcdefghijklmnop\<close> is not empty and scores 55, below 75,
  and its label is "Medium", not "Weak".
\<close>

theorem calculateStrength_weak_below_75_counterexample:
  "str ''abcdefghijklmnop'' \<noteq> []
   \<and> score (calculateStrength (str ''abcdefghijklmnop'')) < 75
   \<and> label (calculateStrength (str ''abcdefghijklmnop'')) \<noteq> str ''Weak''"
  by (simp add: calculateStrength_def str_def test_lower_def test_upper_def test_digit_def
        test_other_def in_range_def)

text \<open>
  C9. Every code unit is a lowercase letter, an uppercase letter, a digit or none of the
  three, so a non-empty password earns at least one of the four variety buckets, and its
  score is at least 10.
\<close>

theorem calculateStrength_at_least_10:
  assumes "password \<noteq> []"
  shows "(test_lower password \<or> test_upper password \<or> test_digit password
            \<or> test_other password)
         \<and> 10 \<le> score (calculateStrength password)"
proof
  from assms obtain c where "c \<in> set password" by (cases password) auto
  then show some: "test_lower password \<or> test_upper password \<or> test_digit password
                     \<or> test_other password"
    unfolding test_lower_def test_upper_def test_digit_def test_other_def list_ex_iff
    by blast
  then show "10 \<le> score (calculateStrength password)"
    unfolding score_sum [OF assms] by auto
qed

theorem calculateStrength_at_least_10_witness:
  "str ''!'' \<noteq> []
   \<and> (test_lower (str ''!'') \<or> test_upper (str ''!'') \<or> test_digit (str ''!'')
        \<or> test_other (str ''!''))
   \<and> 10 \<le> score (calculateStrength (str ''!''))
   \<and> score (calculateStrength (str ''!'')) = 10"
proof -
  have ne: "str ''!'' \<noteq> []" by (simp add: str_def)
  have "score (calculateStrength (str ''!'')) = 10"
    by (simp add: calculateStrength_def str_def test_lower_def test_upper_def test_digit_def
          test_other_def in_range_def)
  with ne calculateStrength_at_least_10 [OF ne] show ?thesis by blast
qed

end
